theory Spec2Isabelle
  imports Main "HOL-Library.Word"
begin

section \<open>The SDL interface as seen by \<open>main.cpp\<close>\<close>

text \<open>
  \<open>main.cpp\<close> is the whole program. Everything it does is a call into SDL or a write to
  \<open>std::cerr\<close>, so its behaviour is the sequence of these calls together with the exit
  code. The model records every call, in program order, with its arguments, and takes what
  SDL hands back (the status of \<open>SDL_Init\<close>, the two handles, the results of successive
  \<open>SDL_PollEvent\<close> calls) from an environment.
\<close>

type_synonym Uint32 = "32 word"
type_synonym Uint8 = "8 word"

text \<open>An opaque handle (\<open>SDL_Window*\<close>, \<open>SDL_Renderer*\<close>) is its address; 0 is the null pointer.\<close>

type_synonym ptr = nat

definition NULL :: ptr where
  "NULL = 0"

definition SCREEN_WIDTH :: int where
  "SCREEN_WIDTH = 800"

definition SCREEN_HEIGHT :: int where
  "SCREEN_HEIGHT = 600"

text \<open>
  The constants below come from the headers the program includes (\<open>SDL.h\<close> of SDL2 and
  \<open>cstdlib\<close>), not from the repository; they carry the values of those headers. No result
  depends on the values, only on \<open>EXIT_SUCCESS\<close> and \<open>EXIT_FAILURE\<close> being different.
\<close>

definition SDL_INIT_VIDEO :: Uint32 where
  "SDL_INIT_VIDEO = 0x20"

definition SDL_WINDOWPOS_CENTERED :: int where
  "SDL_WINDOWPOS_CENTERED = 0x2FFF0000"

definition SDL_WINDOW_SHOWN :: Uint32 where
  "SDL_WINDOW_SHOWN = 0x4"

definition SDL_RENDERER_ACCELERATED :: Uint32 where
  "SDL_RENDERER_ACCELERATED = 0x2"

definition SDL_QUIT :: Uint32 where
  "SDL_QUIT = 0x100"

definition EXIT_SUCCESS :: int where
  "EXIT_SUCCESS = 0"

definition EXIT_FAILURE :: int where
  "EXIT_FAILURE = 1"

text \<open>
  \<open>SDL_Event\<close> is a union whose first member is the event type; the program reads nothing
  else of it. The remaining bytes are kept as an uninterpreted payload.
\<close>

record SDL_Event =
  type :: Uint32
  payload :: "Uint8 list"

text \<open>
  One entry of the call sequence. \<open>SDL_PollEvent\<close> is recorded with what it returned:
  \<open>Some e\<close> when it returned 1 and stored \<open>e\<close>, \<open>None\<close> when it returned 0.
  \<open>Cerr\<close> is one line written to \<open>std::cerr\<close>.
\<close>

datatype sdl_call =
    SDL_Init Uint32
  | SDL_CreateWindow string int int int int Uint32
  | SDL_CreateRenderer ptr int Uint32
  | SDL_PollEvent "SDL_Event option"
  | SDL_SetRenderDrawColor ptr Uint8 Uint8 Uint8 Uint8
  | SDL_RenderClear ptr
  | SDL_RenderPresent ptr
  | SDL_DestroyRenderer ptr
  | SDL_DestroyWindow ptr
  | SDL_Quit
  | Cerr string

text \<open>
  What the outside world answers during one run: the value \<open>SDL_Init\<close> returns, the text
  \<open>SDL_GetError\<close> returns, the handles \<open>SDL_CreateWindow\<close> and \<open>SDL_CreateRenderer\<close>
  return, and the results of the successive calls of \<open>SDL_PollEvent\<close>. The list of poll
  results is finite; when it is used up the run is cut there, with the loop still going.
\<close>

record env =
  init_status :: int
  sdl_error :: string
  created_window :: ptr
  created_renderer :: ptr
  poll_results :: "SDL_Event option list"

section \<open>The RAII deleters\<close>

definition SdlWindowDeleter :: "ptr \<Rightarrow> sdl_call list" where
  "SdlWindowDeleter w = (if w \<noteq> NULL then [SDL_DestroyWindow w] else [])"

definition SdlRendererDeleter :: "ptr \<Rightarrow> sdl_call list" where
  "SdlRendererDeleter r = (if r \<noteq> NULL then [SDL_DestroyRenderer r] else [])"

text \<open>The destructor of \<open>std::unique_ptr\<close>: the deleter runs only on a pointer that is not null.\<close>

definition unique_ptr_destroy :: "(ptr \<Rightarrow> sdl_call list) \<Rightarrow> ptr \<Rightarrow> sdl_call list" where
  "unique_ptr_destroy deleter p = (if p \<noteq> NULL then deleter p else [])"

section \<open>The main loop\<close>

text \<open>
  The inner loop \<open>while (SDL_PollEvent(&event))\<close>. It returns the flag \<open>running\<close>, the
  calls made, and the poll results left over; \<open>None\<close> in the last place says that the
  results ran out before \<open>SDL_PollEvent\<close> returned 0.
\<close>

fun poll_events ::
  "bool \<Rightarrow> SDL_Event option list \<Rightarrow> bool \<times> sdl_call list \<times> SDL_Event option list option"
where
  "poll_events running [] = (running, [], None)"
| "poll_events running (None # ps) = (running, [SDL_PollEvent None], Some ps)"
| "poll_events running (Some event # ps) =
     (let running' = (if type event = SDL_QUIT then False else running);
          (r, calls, rest) = poll_events running' ps
      in (r, SDL_PollEvent (Some event) # calls, rest))"

text \<open>The rendering part of the loop body.\<close>

definition render :: "ptr \<Rightarrow> sdl_call list" where
  "render renderer =
     [SDL_SetRenderDrawColor renderer 20 20 30 255,
      SDL_RenderClear renderer,
      SDL_RenderPresent renderer]"

text \<open>
  The outer loop \<open>while (running)\<close>. The result is the calls made and whether the loop
  was left; \<open>False\<close> says that the poll results ran out inside an iteration.
\<close>

function main_loop :: "ptr \<Rightarrow> bool \<Rightarrow> SDL_Event option list \<Rightarrow> sdl_call list \<times> bool" where
  "main_loop renderer running ps =
     (if running then
        (case poll_events running ps of
           (running', calls, None) \<Rightarrow> (calls, False)
         | (running', calls, Some ps') \<Rightarrow>
             (let (later, left) = main_loop renderer running' ps'
              in (calls @ render renderer @ later, left)))
      else ([], True))"
  by pat_completeness auto
termination
proof -
  have shorter: "length ps' < length ps"
    if "poll_events running ps = (r, calls, Some ps')" for running ps r calls ps'
    using that
  proof (induction ps arbitrary: running r calls)
    case Nil
    then show ?case by simp
  next
    case (Cons p ps)
    show ?case
    proof (cases p)
      case None
      with Cons.prems show ?thesis by simp
    next
      case (Some event)
      with Cons.prems Cons.IH show ?thesis
        by (fastforce simp: Let_def split: prod.splits)
    qed
  qed
  show ?thesis
    by (relation "measure (\<lambda>(renderer, running, ps). length ps)")
       (auto dest: shorter [OF sym])
qed

declare main_loop.simps [simp del]

section \<open>The program\<close>

text \<open>
  \<open>main\<close>, with the destructors of \<open>renderer\<close> and \<open>window\<close> running at each
  \<open>return\<close> after their declaration, in reverse order of declaration. The exit code is
  \<open>None\<close> when the poll results ran out with the loop still going.
\<close>

definition main :: "env \<Rightarrow> sdl_call list \<times> int option" where
  "main e =
     (if init_status e < 0 then
        ([SDL_Init SDL_INIT_VIDEO,
          Cerr (''SDL could not initialize! SDL_Error: '' @ sdl_error e)],
         Some EXIT_FAILURE)
      else
        (let window = created_window e;
             started =
               [SDL_Init SDL_INIT_VIDEO,
                SDL_CreateWindow ''Software Rasterizer'' SDL_WINDOWPOS_CENTERED
                  SDL_WINDOWPOS_CENTERED SCREEN_WIDTH SCREEN_HEIGHT SDL_WINDOW_SHOWN]
         in if window = NULL then
              (started
                 @ [Cerr (''Window could not be created! SDL_Error: '' @ sdl_error e),
                    SDL_Quit]
                 @ unique_ptr_destroy SdlWindowDeleter window,
               Some EXIT_FAILURE)
            else
              (let renderer = created_renderer e;
                   ready = started @ [SDL_CreateRenderer window (- 1) SDL_RENDERER_ACCELERATED]
               in if renderer = NULL then
                    (ready
                       @ [Cerr (''Renderer could not be created! SDL_Error: '' @ sdl_error e),
                          SDL_Quit]
                       @ unique_ptr_destroy SdlRendererDeleter renderer
                       @ unique_ptr_destroy SdlWindowDeleter window,
                     Some EXIT_FAILURE)
                  else
                    (let (frames, left) = main_loop renderer True (poll_results e)
                     in if left then
                          (ready @ frames @ [SDL_Quit]
                             @ unique_ptr_destroy SdlRendererDeleter renderer
                             @ unique_ptr_destroy SdlWindowDeleter window,
                           Some EXIT_SUCCESS)
                        else (ready @ frames, None)))))"

section \<open>Describing runs\<close>

text \<open>
  The definitions of this section are not code of the program; they are the vocabulary in
  which its runs are described.
\<close>

text \<open>The test the loop applies to an event.\<close>

definition is_quit :: "SDL_Event \<Rightarrow> bool" where
  "is_quit event = (type event = SDL_QUIT)"

text \<open>
  Poll results given as batches: a batch is the events that \<open>SDL_PollEvent\<close> hands over
  one after the other before it returns 0, that is, what one iteration of the main loop
  polls.
\<close>

definition script_of :: "SDL_Event list list \<Rightarrow> SDL_Event option list" where
  "script_of batches = concat (map (\<lambda>batch. map Some batch @ [None]) batches)"

text \<open>The polls that returned the events of a batch.\<close>

definition polled :: "SDL_Event list \<Rightarrow> sdl_call list" where
  "polled batch = map (\<lambda>event. SDL_PollEvent (Some event)) batch"

text \<open>The calls of one whole iteration of the main loop that polls the given batch.\<close>

definition iteration :: "ptr \<Rightarrow> SDL_Event list \<Rightarrow> sdl_call list" where
  "iteration renderer batch =
     polled batch @ [SDL_PollEvent None] @ render renderer"

text \<open>A poll that returned an \<open>SDL_QUIT\<close> event.\<close>

fun quit_poll :: "sdl_call \<Rightarrow> bool" where
  "quit_poll (SDL_PollEvent (Some event)) = is_quit event"
| "quit_poll _ = False"

text \<open>Any call other than \<open>SDL_PollEvent\<close>.\<close>

fun not_poll :: "sdl_call \<Rightarrow> bool" where
  "not_poll (SDL_PollEvent _) = False"
| "not_poll _ = True"

text \<open>
  The poll results that stay when every event other than \<open>SDL_QUIT\<close> is taken out of the
  queue: the polls that returned 0 and the \<open>SDL_QUIT\<close> events.
\<close>

fun kept :: "SDL_Event option \<Rightarrow> bool" where
  "kept None = True"
| "kept (Some event) = is_quit event"

text \<open>The results of the polls among some calls, in order.\<close>

fun polls_of :: "sdl_call list \<Rightarrow> SDL_Event option list" where
  "polls_of [] = []"
| "polls_of (SDL_PollEvent p # calls) = p # polls_of calls"
| "polls_of (_ # calls) = polls_of calls"


text \<open>
  Concrete inputs: a window-close event, a key-down event (\<open>SDL_KEYDOWN\<close> is 0x300), and a
  run in which everything is created and the window is closed in the third iteration,
  between two key presses.
\<close>

definition quit_event :: SDL_Event where
  "quit_event = \<lparr>type = SDL_QUIT, payload = []\<rparr>"

definition key_event :: SDL_Event where
  "key_event = \<lparr>type = 0x300, payload = [4, 0]\<rparr>"

definition demo_env :: env where
  "demo_env =
     \<lparr>init_status = 0, sdl_error = ''No available video device'',
      created_window = 11, created_renderer = 7,
      poll_results =
        [Some key_event, None, None, Some key_event, Some quit_event, Some key_event, None,
         Some key_event, None]\<rparr>"

section \<open>The shape of every run of the loop\<close>

lemma poll_events_batch:
  "poll_events running (map Some batch @ None # rest) =
     (running \<and> \<not> list_ex is_quit batch,
      polled batch @ [SDL_PollEvent None], Some rest)"
  by (induction batch arbitrary: running) (auto simp: is_quit_def polled_def)

lemma poll_events_cut:
  "poll_events running (map Some batch) =
     (running \<and> \<not> list_ex is_quit batch, polled batch, None)"
  by (induction batch arbitrary: running) (auto simp: is_quit_def polled_def)

lemma split_polls:
  "(\<exists>batch rest. ps = map Some batch @ None # rest) \<or> (\<exists>batch. ps = map Some batch)"
proof (induction ps)
  case Nil
  then show ?case by simp
next
  case (Cons p ps)
  show ?case
  proof (cases p)
    case None
    then have "p # ps = map Some [] @ None # ps" by simp
    then show ?thesis by (intro disjI1 exI)
  next
    case (Some event)
    from Cons.IH show ?thesis
    proof
      assume "\<exists>batch rest. ps = map Some batch @ None # rest"
      then obtain batch rest where "ps = map Some batch @ None # rest" by blast
      with Some have "p # ps = map Some (event # batch) @ None # rest" by simp
      then show ?thesis by (intro disjI1 exI)
    next
      assume "\<exists>batch. ps = map Some batch"
      then obtain batch where "ps = map Some batch" by blast
      with Some have "p # ps = map Some (event # batch)" by simp
      then show ?thesis by (intro disjI2 exI)
    qed
  qed
qed

lemma main_loop_stopped: "main_loop renderer False ps = ([], True)"
  by (simp add: main_loop.simps)

lemma main_loop_cut:
  "main_loop renderer True (map Some batch) = (polled batch, False)"
  by (simp add: main_loop.simps [of _ True] poll_events_cut)

lemma main_loop_quit:
  "list_ex is_quit batch \<Longrightarrow>
   main_loop renderer True (map Some batch @ None # rest) = (iteration renderer batch, True)"
  by (simp add: main_loop.simps [of _ True] poll_events_batch main_loop_stopped iteration_def)

lemma main_loop_go_on:
  "\<not> list_ex is_quit batch \<Longrightarrow>
   main_loop renderer True (map Some batch @ None # rest) =
     (iteration renderer batch @ fst (main_loop renderer True rest),
      snd (main_loop renderer True rest))"
  by (simp add: main_loop.simps [of _ True "map Some batch @ None # rest"]
        poll_events_batch iteration_def split: prod.splits)

lemma main_loop_batches:
  "\<forall>batch\<in>set batches. \<not> list_ex is_quit batch \<Longrightarrow>
   main_loop renderer True (script_of batches @ rest) =
     (concat (map (iteration renderer) batches) @ fst (main_loop renderer True rest),
      snd (main_loop renderer True rest))"
proof (induction batches)
  case Nil
  then show ?case by (simp add: script_of_def)
next
  case (Cons batch batches)
  then have "script_of (batch # batches) @ rest
      = map Some batch @ None # (script_of batches @ rest)"
    by (simp add: script_of_def)
  with Cons show ?case by (simp add: main_loop_go_on)
qed

lemma main_loop_cases:
  "(\<exists>batches batch unread.
      ps = script_of batches @ map Some batch @ None # unread \<and>
      (\<forall>b\<in>set batches. \<not> list_ex is_quit b) \<and> list_ex is_quit batch \<and>
      main_loop renderer True ps =
        (concat (map (iteration renderer) batches) @ iteration renderer batch, True))
   \<or> (\<exists>batches tail.
      ps = script_of batches @ map Some tail \<and>
      (\<forall>b\<in>set batches. \<not> list_ex is_quit b) \<and>
      main_loop renderer True ps =
        (concat (map (iteration renderer) batches) @ polled tail, False))"
  (is "?left ps \<or> ?cut ps")
proof (induction ps rule: length_induct)
  case (1 ps)
  from split_polls [of ps] show ?case
  proof
    assume "\<exists>batch. ps = map Some batch"
    then obtain batch where ps: "ps = map Some batch" by blast
    have "ps = script_of [] @ map Some batch \<and>
        (\<forall>b\<in>set []. \<not> list_ex is_quit b) \<and>
        main_loop renderer True ps =
          (concat (map (iteration renderer) []) @ polled batch, False)"
      by (simp add: ps script_of_def main_loop_cut)
    then have "?cut ps" by blast
    then show ?thesis ..
  next
    assume "\<exists>batch rest. ps = map Some batch @ None # rest"
    then obtain batch rest where ps: "ps = map Some batch @ None # rest" by blast
    show ?thesis
    proof (cases "list_ex is_quit batch")
      case True
      have "ps = script_of [] @ map Some batch @ None # rest \<and>
          (\<forall>b\<in>set []. \<not> list_ex is_quit b) \<and> list_ex is_quit batch \<and>
          main_loop renderer True ps =
            (concat (map (iteration renderer) []) @ iteration renderer batch, True)"
        by (simp add: ps script_of_def main_loop_quit True)
      then have "?left ps" by blast
      then show ?thesis ..
    next
      case False
      have step: "main_loop renderer True ps =
          (iteration renderer batch @ fst (main_loop renderer True rest),
           snd (main_loop renderer True rest))"
        by (simp add: ps main_loop_go_on False)
      have "length rest < length ps" by (simp add: ps)
      with "1.IH" have "?left rest \<or> ?cut rest" by blast
      then show ?thesis
      proof
        assume "?left rest"
        then obtain batches last_batch unread where
          rest: "rest = script_of batches @ map Some last_batch @ None # unread" and
          none: "\<forall>b\<in>set batches. \<not> list_ex is_quit b" and
          quit: "list_ex is_quit last_batch" and
          run: "main_loop renderer True rest =
            (concat (map (iteration renderer) batches) @ iteration renderer last_batch, True)"
          by blast
        have shape: "ps = script_of (batch # batches) @ map Some last_batch @ None # unread"
          by (simp add: ps rest script_of_def)
        have "main_loop renderer True ps =
            (concat (map (iteration renderer) (batch # batches))
               @ iteration renderer last_batch, True)"
          by (simp add: step run)
        with shape False none quit
        have "ps = script_of (batch # batches) @ map Some last_batch @ None # unread \<and>
            (\<forall>b\<in>set (batch # batches). \<not> list_ex is_quit b) \<and> list_ex is_quit last_batch \<and>
            main_loop renderer True ps =
              (concat (map (iteration renderer) (batch # batches))
                 @ iteration renderer last_batch, True)"
          by simp
        then have "?left ps" by blast
        then show ?thesis ..
      next
        assume "?cut rest"
        then obtain batches tail where
          rest: "rest = script_of batches @ map Some tail" and
          none: "\<forall>b\<in>set batches. \<not> list_ex is_quit b" and
          run: "main_loop renderer True rest =
            (concat (map (iteration renderer) batches) @ polled tail,
             False)"
          by blast
        have shape: "ps = script_of (batch # batches) @ map Some tail"
          by (simp add: ps rest script_of_def)
        have "main_loop renderer True ps =
            (concat (map (iteration renderer) (batch # batches))
               @ polled tail, False)"
          by (simp add: step run)
        with shape False none
        have "ps = script_of (batch # batches) @ map Some tail \<and>
            (\<forall>b\<in>set (batch # batches). \<not> list_ex is_quit b) \<and>
            main_loop renderer True ps =
              (concat (map (iteration renderer) (batch # batches))
                 @ polled tail, False)"
          by simp
        then have "?cut ps" by blast
        then show ?thesis ..
      qed
    qed
  qed
qed

lemma quit_poll_polls:
  "list_ex quit_poll (polled batch) = list_ex is_quit batch"
  by (induction batch) (simp_all add: polled_def)

lemma quit_poll_render: "\<not> list_ex quit_poll (render renderer)"
  by (simp add: render_def)

lemma quit_poll_iteration: "list_ex quit_poll (iteration renderer batch) = list_ex is_quit batch"
  by (simp add: iteration_def quit_poll_polls quit_poll_render)

lemma quit_poll_iterations:
  "\<forall>b\<in>set batches. \<not> list_ex is_quit b \<Longrightarrow>
   \<not> list_ex quit_poll (concat (map (iteration renderer) batches))"
  by (induction batches) (simp_all add: quit_poll_iteration)

lemma kept_polls: "filter kept (map Some batch) = map Some (filter is_quit batch)"
  by (induction batch) simp_all

lemma kept_script: "filter kept (script_of batches) = script_of (map (filter is_quit) batches)"
  by (induction batches) (simp_all add: script_of_def kept_polls)

lemma quit_filter: "list_ex is_quit (filter is_quit batch) = list_ex is_quit batch"
  by (induction batch) simp_all

lemma not_poll_polls: "filter not_poll (polled batch) = []"
  by (induction batch) (simp_all add: polled_def)

lemma not_poll_iteration: "filter not_poll (iteration renderer batch) = render renderer"
  by (simp add: iteration_def not_poll_polls render_def)

lemma not_poll_iterations:
  "filter not_poll (concat (map (iteration renderer) batches)) =
     concat (replicate (length batches) (render renderer))"
  by (induction batches) (simp_all add: not_poll_iteration)

lemma not_poll_iterations_of:
  "filter not_poll (concat (map (\<lambda>b. iteration renderer (f b)) batches)) =
     concat (replicate (length batches) (render renderer))"
  by (induction batches) (simp_all add: not_poll_iteration)

lemma main_loop_ignores_others:
  "snd (main_loop renderer True (filter kept ps)) = snd (main_loop renderer True ps) \<and>
   filter not_poll (fst (main_loop renderer True (filter kept ps))) =
     filter not_poll (fst (main_loop renderer True ps))"
  using main_loop_cases [of ps renderer]
proof (elim disjE exE conjE)
  fix batches batch unread
  assume ps: "ps = script_of batches @ map Some batch @ None # unread"
    and none: "\<forall>b\<in>set batches. \<not> list_ex is_quit b"
    and quit: "list_ex is_quit batch"
    and run: "main_loop renderer True ps =
      (concat (map (iteration renderer) batches) @ iteration renderer batch, True)"
  have "filter kept ps = script_of (map (filter is_quit) batches)
      @ (map Some (filter is_quit batch) @ None # filter kept unread)"
    by (simp add: ps kept_script kept_polls)
  moreover have "\<forall>b\<in>set (map (filter is_quit) batches). \<not> list_ex is_quit b"
    using none by (simp add: quit_filter)
  ultimately have "main_loop renderer True (filter kept ps) =
      (concat (map (iteration renderer) (map (filter is_quit) batches))
         @ iteration renderer (filter is_quit batch), True)"
    using quit by (simp only: main_loop_batches main_loop_quit quit_filter fst_conv snd_conv)
  with run show ?thesis
    by (simp add: not_poll_iterations not_poll_iterations_of not_poll_iteration comp_def)
next
  fix batches tail
  assume ps: "ps = script_of batches @ map Some tail"
    and none: "\<forall>b\<in>set batches. \<not> list_ex is_quit b"
    and run: "main_loop renderer True ps =
      (concat (map (iteration renderer) batches) @ polled tail, False)"
  have "filter kept ps = script_of (map (filter is_quit) batches)
      @ map Some (filter is_quit tail)"
    by (simp add: ps kept_script kept_polls)
  moreover have "\<forall>b\<in>set (map (filter is_quit) batches). \<not> list_ex is_quit b"
    using none by (simp add: quit_filter)
  ultimately have "main_loop renderer True (filter kept ps) =
      (concat (map (iteration renderer) (map (filter is_quit) batches))
         @ polled (filter is_quit tail), False)"
    by (simp only: main_loop_batches main_loop_cut fst_conv snd_conv)
  with run show ?thesis
    by (simp add: not_poll_iterations not_poll_iterations_of not_poll_polls comp_def)
qed

lemma main_loop_left_quit:
  "snd (main_loop renderer True ps) \<Longrightarrow> list_ex quit_poll (fst (main_loop renderer True ps))"
  using main_loop_cases [of ps renderer]
  by (auto simp: quit_poll_iteration)

lemma main_loop_whole_batches:
  "snd (main_loop renderer True (script_of batches)) =
     list_ex quit_poll (fst (main_loop renderer True (script_of batches)))"
proof (induction batches)
  case Nil
  have "main_loop renderer True (map Some []) = (polled [], False)"
    by (rule main_loop_cut)
  then show ?case by (simp add: script_of_def polled_def)
next
  case (Cons batch batches)
  have ps: "script_of (batch # batches) = map Some batch @ None # script_of batches"
    by (simp add: script_of_def)
  show ?case
  proof (cases "list_ex is_quit batch")
    case True
    then show ?thesis by (simp add: ps main_loop_quit quit_poll_iteration)
  next
    case False
    with Cons.IH show ?thesis by (simp add: ps main_loop_go_on quit_poll_iteration)
  qed
qed

section \<open>The event loop only handles window-close\<close>

lemma is_quit_ex: "list_ex is_quit batch = (\<exists>event\<in>set batch. type event = SDL_QUIT)"
  by (simp add: list_ex_iff is_quit_def)

lemma main_loop_batches_input:
  "snd (main_loop renderer True (script_of batches)) =
     (\<exists>batch\<in>set batches. list_ex is_quit batch)"
proof (induction batches)
  case Nil
  have "main_loop renderer True (map Some []) = (polled [], False)"
    by (rule main_loop_cut)
  then show ?case by (simp add: script_of_def)
next
  case (Cons batch batches)
  have ps: "script_of (batch # batches) = map Some batch @ None # script_of batches"
    by (simp add: script_of_def)
  show ?case
  proof (cases "list_ex is_quit batch")
    case True
    then show ?thesis by (simp add: ps main_loop_quit)
  next
    case False
    with Cons.IH show ?thesis by (simp add: ps main_loop_go_on)
  qed
qed

lemma main_loop_quit_first_batch:
  assumes "is_quit event"
  shows "snd (main_loop renderer True (map Some batch @ Some event # between @ None # after))"
proof -
  from split_polls [of between] show ?thesis
  proof
    assume "\<exists>b rest. between = map Some b @ None # rest"
    then obtain b rest where "between = map Some b @ None # rest" by (elim exE)
    then have "map Some batch @ Some event # between @ None # after =
        map Some (batch @ event # b) @ None # (rest @ None # after)"
      by simp
    moreover have "list_ex is_quit (batch @ event # b)"
      using assms by simp
    ultimately show ?thesis by (simp only: main_loop_quit snd_conv)
  next
    assume "\<exists>b. between = map Some b"
    then obtain b where "between = map Some b" by (elim exE)
    then have "map Some batch @ Some event # between @ None # after =
        map Some (batch @ event # b) @ None # after"
      by simp
    moreover have "list_ex is_quit (batch @ event # b)"
      using assms by simp
    ultimately show ?thesis by (simp only: main_loop_quit snd_conv)
  qed
qed

lemma main_loop_quit_drained:
  assumes "is_quit event"
  shows "snd (main_loop renderer True (before @ Some event # between @ None # after))"
proof (induction before rule: length_induct)
  case (1 before)
  from split_polls [of before] show ?case
  proof
    assume "\<exists>batch. before = map Some batch"
    then obtain batch where "before = map Some batch" by (elim exE)
    with main_loop_quit_first_batch [OF assms] show ?thesis by simp
  next
    assume "\<exists>batch rest. before = map Some batch @ None # rest"
    then obtain batch rest where before: "before = map Some batch @ None # rest"
      by (elim exE)
    have whole: "before @ Some event # between @ None # after =
        map Some batch @ None # (rest @ Some event # between @ None # after)"
      by (simp add: before)
    show ?thesis
    proof (cases "list_ex is_quit batch")
      case True
      then show ?thesis by (simp only: whole main_loop_quit snd_conv)
    next
      case False
      have "length rest < length before" by (simp add: before)
      with "1.IH"
      have "snd (main_loop renderer True (rest @ Some event # between @ None # after))"
        by blast
      then show ?thesis
        unfolding whole main_loop_go_on [OF False] snd_conv .
    qed
  qed
qed

lemma main_loop_left_input:
  assumes "snd (main_loop renderer True ps)"
  shows "\<exists>before event between after.
    ps = before @ Some event # between @ None # after \<and> type event = SDL_QUIT"
  using main_loop_cases [of ps renderer]
proof (elim disjE exE conjE)
  fix batches batch unread
  assume ps: "ps = script_of batches @ map Some batch @ None # unread"
    and quit: "list_ex is_quit batch"
  from quit obtain event where "event \<in> set batch" and event: "type event = SDL_QUIT"
    unfolding is_quit_ex by (elim bexE)
  then obtain b1 b2 where "batch = b1 @ event # b2"
    by (auto dest: split_list)
  with ps have "ps = (script_of batches @ map Some b1) @ Some event # map Some b2 @ None # unread"
    by simp
  from this event
  have "ps = (script_of batches @ map Some b1) @ Some event # map Some b2 @ None # unread
      \<and> type event = SDL_QUIT"
    by (rule conjI)
  then show ?thesis by (intro exI)
next
  fix batches tail
  assume "main_loop renderer True ps =
      (concat (map (iteration renderer) batches) @ polled tail, False)"
  with assms show ?thesis by simp
qed

lemma polls_of_polled: "polls_of (polled batch @ calls) = map Some batch @ polls_of calls"
  by (induction batch) (simp_all add: polled_def)

lemma polls_of_iteration:
  "polls_of (iteration renderer batch @ calls) = map Some batch @ None # polls_of calls"
  by (simp add: iteration_def polls_of_polled render_def)

lemma polls_of_iterations:
  "polls_of (concat (map (iteration renderer) batches) @ calls) =
     script_of batches @ polls_of calls"
  by (induction batches) (simp_all add: polls_of_iteration script_of_def)

lemma main_loop_polls_input:
  "\<exists>unread. ps = polls_of (fst (main_loop renderer True ps)) @ unread"
  using main_loop_cases [of ps renderer]
proof (elim disjE exE conjE)
  fix batches batch unread
  assume ps: "ps = script_of batches @ map Some batch @ None # unread"
    and run: "main_loop renderer True ps =
      (concat (map (iteration renderer) batches) @ iteration renderer batch, True)"
  have "polls_of (iteration renderer batch @ []) = map Some batch @ None # polls_of []"
    by (rule polls_of_iteration)
  then have "polls_of (fst (main_loop renderer True ps)) =
      script_of batches @ map Some batch @ [None]"
    by (simp add: run polls_of_iterations)
  with ps have "ps = polls_of (fst (main_loop renderer True ps)) @ unread" by simp
  then show ?thesis ..
next
  fix batches tail
  assume ps: "ps = script_of batches @ map Some tail"
    and run: "main_loop renderer True ps =
      (concat (map (iteration renderer) batches) @ polled tail, False)"
  have "polls_of (polled tail @ []) = map Some tail @ polls_of []"
    by (rule polls_of_polled)
  then have "polls_of (fst (main_loop renderer True ps)) = script_of batches @ map Some tail"
    by (simp add: run polls_of_iterations)
  with ps have "ps = polls_of (fst (main_loop renderer True ps)) @ []" by simp
  then show ?thesis ..
qed

text \<open>
  C1. In the main event loop no polled event other than \<open>SDL_QUIT\<close> changes the state of
  the program or ends the loop; for every sequence of events the loop is left if and only
  if an \<open>SDL_QUIT\<close> event has been polled.

  The theorem is about the loop started with \<open>running = true\<close> and says, in this order:
  \<^item> for poll results made of whole batches (a batch is what \<open>SDL_PollEvent\<close> hands over
    in one iteration before it returns 0), the loop is left exactly when some batch holds
    an \<open>SDL_QUIT\<close> event;
  \<^item> for any poll results at all, the loop is left exactly when they hold an \<open>SDL_QUIT\<close>
    event and, later, a poll that returns 0 (the test of \<open>running\<close> comes after the queue
    is drained);
  \<^item> the polls of the run are the poll results from the first one on, none skipped;
  \<^item> on whole batches the loop is left exactly when a poll of the run returned an
    \<open>SDL_QUIT\<close> event, and on any poll results a loop that was left has polled one;
  \<^item> taking every event other than \<open>SDL_QUIT\<close> out of the poll results changes neither
    whether the loop is left nor the calls made apart from the polls themselves.
\<close>

theorem main_loop_left_iff_quit:
  "(snd (main_loop renderer True (script_of batches)) =
      (\<exists>batch\<in>set batches. \<exists>event\<in>set batch. type event = SDL_QUIT))
   \<and> (snd (main_loop renderer True ps) =
      (\<exists>before event between after.
         ps = before @ Some event # between @ None # after \<and> type event = SDL_QUIT))
   \<and> (\<exists>unread. ps = polls_of (fst (main_loop renderer True ps)) @ unread)
   \<and> (snd (main_loop renderer True (script_of batches)) =
      list_ex quit_poll (fst (main_loop renderer True (script_of batches))))
   \<and> (snd (main_loop renderer True ps) \<longrightarrow>
        list_ex quit_poll (fst (main_loop renderer True ps)))
   \<and> snd (main_loop renderer True (filter kept ps)) = snd (main_loop renderer True ps)
   \<and> filter not_poll (fst (main_loop renderer True (filter kept ps))) =
        filter not_poll (fst (main_loop renderer True ps))"
proof -
  have whole: "snd (main_loop renderer True (script_of batches)) =
      (\<exists>batch\<in>set batches. \<exists>event\<in>set batch. type event = SDL_QUIT)"
    unfolding main_loop_batches_input is_quit_ex ..
  have any: "snd (main_loop renderer True ps) =
      (\<exists>before event between after.
         ps = before @ Some event # between @ None # after \<and> type event = SDL_QUIT)"
  proof
    assume "snd (main_loop renderer True ps)"
    then show "\<exists>before event between after.
         ps = before @ Some event # between @ None # after \<and> type event = SDL_QUIT"
      by (rule main_loop_left_input)
  next
    assume "\<exists>before event between after.
         ps = before @ Some event # between @ None # after \<and> type event = SDL_QUIT"
    then obtain before event between after where
      ps: "ps = before @ Some event # between @ None # after" and "type event = SDL_QUIT"
      by (elim exE conjE)
    then have "is_quit event" by (simp add: is_quit_def)
    then show "snd (main_loop renderer True ps)"
      unfolding ps by (rule main_loop_quit_drained)
  qed
  from whole any main_loop_polls_input [of ps renderer]
    main_loop_whole_batches [of renderer batches] main_loop_left_quit [of renderer ps]
    main_loop_ignores_others [of renderer ps]
  show ?thesis by (intro conjI impI) (elim conjE | assumption)+
qed

theorem main_loop_left_iff_quit_witness:
  "snd (main_loop 7 True (script_of [[key_event], [key_event, quit_event], [key_event]])) \<and>
   \<not> snd (main_loop 7 True (script_of [[key_event], [key_event]])) \<and>
   snd (main_loop 7 True [Some key_event, None, Some quit_event, Some key_event, None]) \<and>
   list_ex quit_poll
     (fst (main_loop 7 True [Some key_event, None, Some quit_event, Some key_event, None])) \<and>
   (\<exists>unread. [Some key_event, None, Some quit_event, Some key_event, None] =
      polls_of (fst (main_loop 7 True
        [Some key_event, None, Some quit_event, Some key_event, None])) @ unread) \<and>
   filter not_poll
     (fst (main_loop 7 True
        (filter kept [Some key_event, None, Some quit_event, Some key_event, None]))) =
   filter not_poll
     (fst (main_loop 7 True [Some key_event, None, Some quit_event, Some key_event, None]))"
proof -
  let ?ps = "[Some key_event, None, Some quit_event, Some key_event, None]"
  note closing = main_loop_left_iff_quit
    [of 7 "[[key_event], [key_event, quit_event], [key_event]]" ?ps]
  note staying = main_loop_left_iff_quit [of 7 "[[key_event], [key_event]]" ?ps]
  have quit: "type quit_event = SDL_QUIT" and key: "type key_event \<noteq> SDL_QUIT"
    by (simp_all add: quit_event_def key_event_def SDL_QUIT_def)
  have "?ps = [Some key_event, None] @ Some quit_event # [Some key_event] @ None # []"
    by simp
  with quit have "\<exists>before event between after.
      ?ps = before @ Some event # between @ None # after \<and> type event = SDL_QUIT"
    by blast
  with closing have left: "snd (main_loop 7 True ?ps)" by blast
  from closing quit
  have a: "snd (main_loop 7 True (script_of [[key_event], [key_event, quit_event], [key_event]]))"
    by simp
  from staying key
  have b: "\<not> snd (main_loop 7 True (script_of [[key_event], [key_event]]))"
    by simp
  from closing left a b show ?thesis by blast
qed

section \<open>Every frame is cleared and presented\<close>

lemma script_of_snoc:
  "script_of (batches @ [batch]) = script_of batches @ map Some batch @ [None]"
  by (simp add: script_of_def)

text \<open>
  C2. On every iteration of the main loop the program sets the draw colour, clears the
  screen and presents it, in that order and exactly once per iteration.

  For any poll results, the calls of the loop are a sequence of iterations followed
  by the polls of an iteration that the poll results cut short. An iteration is the polls
  that returned an event, the poll that returned 0, and then exactly
  \<open>SDL_SetRenderDrawColor(renderer, 20, 20, 30, 255)\<close>, \<open>SDL_RenderClear(renderer)\<close>,
  \<open>SDL_RenderPresent(renderer)\<close>. When the loop was left no iteration is cut short and there
  is at least one iteration.
\<close>

theorem main_loop_every_frame:
  "\<exists>batches tail unread.
     ps = script_of batches @ map Some tail @ unread \<and>
     fst (main_loop renderer True ps) =
       concat (map (\<lambda>batch. polled batch @
                  [SDL_PollEvent None,
                   SDL_SetRenderDrawColor renderer 20 20 30 255,
                   SDL_RenderClear renderer,
                   SDL_RenderPresent renderer]) batches) @ polled tail \<and>
     (snd (main_loop renderer True ps) \<longrightarrow> tail = [] \<and> batches \<noteq> [])"
  using main_loop_cases [of ps renderer]
proof (elim disjE exE conjE)
  fix batches batch unread
  assume ps: "ps = script_of batches @ map Some batch @ None # unread"
    and run: "main_loop renderer True ps =
      (concat (map (iteration renderer) batches) @ iteration renderer batch, True)"
  have "ps = script_of (batches @ [batch]) @ map Some [] @ unread"
    by (simp add: ps script_of_snoc)
  moreover have "fst (main_loop renderer True ps) =
      concat (map (\<lambda>batch. polled batch @
                  [SDL_PollEvent None,
                   SDL_SetRenderDrawColor renderer 20 20 30 255,
                   SDL_RenderClear renderer,
                   SDL_RenderPresent renderer]) (batches @ [batch])) @ polled []"
    by (simp add: run iteration_def [abs_def] render_def polled_def)
  ultimately show ?thesis by blast
next
  fix batches tail
  assume ps: "ps = script_of batches @ map Some tail"
    and run: "main_loop renderer True ps =
      (concat (map (iteration renderer) batches) @ polled tail, False)"
  have "ps = script_of batches @ map Some tail @ []"
    by (simp add: ps)
  moreover have "fst (main_loop renderer True ps) =
      concat (map (\<lambda>batch. polled batch @
                  [SDL_PollEvent None,
                   SDL_SetRenderDrawColor renderer 20 20 30 255,
                   SDL_RenderClear renderer,
                   SDL_RenderPresent renderer]) batches) @ polled tail"
    by (simp add: run iteration_def [abs_def] render_def)
  moreover have "\<not> snd (main_loop renderer True ps)"
    by (simp add: run)
  ultimately show ?thesis by blast
qed

theorem main_loop_every_frame_witness:
  "snd (main_loop 7 True (poll_results demo_env)) \<and>
   (\<exists>batches unread.
      poll_results demo_env = script_of batches @ unread \<and> batches \<noteq> [] \<and>
      fst (main_loop 7 True (poll_results demo_env)) =
        concat (map (\<lambda>batch. polled batch @
                  [SDL_PollEvent None,
                   SDL_SetRenderDrawColor 7 20 20 30 255,
                   SDL_RenderClear 7,
                   SDL_RenderPresent 7]) batches))"
proof -
  have left: "snd (main_loop 7 True (poll_results demo_env))"
    by code_simp
  from main_loop_every_frame [of "poll_results demo_env" 7] obtain batches tail unread where
    "poll_results demo_env = script_of batches @ map Some tail @ unread" and
    "fst (main_loop 7 True (poll_results demo_env)) =
       concat (map (\<lambda>batch. polled batch @
                  [SDL_PollEvent None,
                   SDL_SetRenderDrawColor 7 20 20 30 255,
                   SDL_RenderClear 7,
                   SDL_RenderPresent 7]) batches) @ polled tail" and
    "snd (main_loop 7 True (poll_results demo_env)) \<longrightarrow> tail = [] \<and> batches \<noteq> []"
    by (elim exE conjE)
  with left have "poll_results demo_env = script_of batches @ unread \<and> batches \<noteq> [] \<and>
      fst (main_loop 7 True (poll_results demo_env)) =
        concat (map (\<lambda>batch. polled batch @
                  [SDL_PollEvent None,
                   SDL_SetRenderDrawColor 7 20 20 30 255,
                   SDL_RenderClear 7,
                   SDL_RenderPresent 7]) batches)"
    by (simp add: polled_def)
  then have "\<exists>batches unread.
      poll_results demo_env = script_of batches @ unread \<and> batches \<noteq> [] \<and>
      fst (main_loop 7 True (poll_results demo_env)) =
        concat (map (\<lambda>batch. polled batch @
                  [SDL_PollEvent None,
                   SDL_SetRenderDrawColor 7 20 20 30 255,
                   SDL_RenderClear 7,
                   SDL_RenderPresent 7]) batches)"
    by (intro exI)
  with left show ?thesis by (rule conjI)
qed

section \<open>What was acquired is released\<close>








text \<open>
  The order of the releases: \<open>SDL_Quit\<close> is an explicit call before \<open>return\<close>, and the
  deleters run at the \<open>return\<close>, the renderer first.
\<close>

lemma main_teardown_order:
  assumes "main e = (calls, Some code)" and "0 \<le> init_status e"
    and "created_window e \<noteq> NULL" and "created_renderer e \<noteq> NULL"
  shows "\<exists>earlier. calls = earlier @
    [SDL_Quit, SDL_DestroyRenderer (created_renderer e), SDL_DestroyWindow (created_window e)]"
proof -
  let ?ready = "[SDL_Init SDL_INIT_VIDEO,
      SDL_CreateWindow ''Software Rasterizer'' SDL_WINDOWPOS_CENTERED
        SDL_WINDOWPOS_CENTERED SCREEN_WIDTH SCREEN_HEIGHT SDL_WINDOW_SHOWN,
      SDL_CreateRenderer (created_window e) (- 1) SDL_RENDERER_ACCELERATED]"
  from assms have "calls =
      (?ready @ fst (main_loop (created_renderer e) True (poll_results e))) @
      [SDL_Quit, SDL_DestroyRenderer (created_renderer e), SDL_DestroyWindow (created_window e)]"
    by (auto simp: main_def Let_def unique_ptr_destroy_def SdlWindowDeleter_def
        SdlRendererDeleter_def split: if_splits prod.splits)
  then show ?thesis ..
qed

section \<open>Quitting finishes the frame\<close>

lemma split_in_front:
  "xs @ ys = before @ x # after \<Longrightarrow> x \<notin> set ys \<Longrightarrow>
   \<exists>mid. xs = before @ x # mid \<and> after = mid @ ys"
proof (induction before arbitrary: xs)
  case Nil
  then show ?case by (cases xs) auto
next
  case (Cons b before)
  then show ?case by (cases xs) auto
qed

lemma split_behind:
  "xs @ ys = before @ x # after \<Longrightarrow> x \<notin> set xs \<Longrightarrow>
   \<exists>mid. before = xs @ mid \<and> ys = mid @ x # after"
proof (induction xs arbitrary: before)
  case Nil
  then show ?case by simp
next
  case (Cons a xs)
  then show ?case by (cases before) auto
qed

lemma polled_suffix:
  "polled batch = before @ x # after \<Longrightarrow> \<exists>others. after = polled others"
  unfolding polled_def
  by (auto simp: map_eq_append_conv map_eq_Cons_conv)

lemma quit_poll_set: "list_ex quit_poll calls = (\<exists>c\<in>set calls. quit_poll c)"
  by (simp add: list_ex_iff)

lemma main_loop_left_shape:
  assumes "snd (main_loop renderer True ps)"
  shows "\<exists>batches batch.
    (\<forall>b\<in>set batches. \<not> list_ex is_quit b) \<and>
    fst (main_loop renderer True ps) =
      concat (map (iteration renderer) batches) @ iteration renderer batch"
  using main_loop_cases [of ps renderer]
proof (elim disjE exE conjE)
  fix batches batch unread
  assume "\<forall>b\<in>set batches. \<not> list_ex is_quit b"
    and "main_loop renderer True ps =
      (concat (map (iteration renderer) batches) @ iteration renderer batch, True)"
  then have "(\<forall>b\<in>set batches. \<not> list_ex is_quit b) \<and>
    fst (main_loop renderer True ps) =
      concat (map (iteration renderer) batches) @ iteration renderer batch"
    by simp
  then show ?thesis by blast
next
  fix batches tail
  assume "main_loop renderer True ps =
      (concat (map (iteration renderer) batches) @ polled tail, False)"
  with assms show ?thesis by simp
qed

lemma main_loop_after_quit:
  assumes left: "snd (main_loop renderer True ps)"
    and split: "fst (main_loop renderer True ps) = before @ SDL_PollEvent (Some event) # after"
    and quit: "type event = SDL_QUIT"
  shows "\<exists>others. after = polled others @ [SDL_PollEvent None] @ render renderer"
proof -
  let ?q = "SDL_PollEvent (Some event)"
  from main_loop_left_shape [OF left] obtain batches batch where
    none: "\<forall>b\<in>set batches. \<not> list_ex is_quit b" and
    run: "fst (main_loop renderer True ps) =
      concat (map (iteration renderer) batches) @ iteration renderer batch"
    by blast
  have "quit_poll ?q" using quit by (simp add: is_quit_def)
  with quit_poll_iterations [OF none, of renderer]
  have early: "?q \<notin> set (concat (map (iteration renderer) batches))"
    unfolding quit_poll_set by blast
  from run split
  have "concat (map (iteration renderer) batches) @ iteration renderer batch =
      before @ ?q # after"
    by (rule trans [OF sym])
  from split_behind [OF this early] obtain mid where
    "iteration renderer batch = mid @ ?q # after"
    by (elim exE conjE)
  then have last: "polled batch @ ([SDL_PollEvent None] @ render renderer) = mid @ ?q # after"
    unfolding iteration_def .
  have late: "?q \<notin> set ([SDL_PollEvent None] @ render renderer)"
    by (simp add: render_def)
  from split_in_front [OF last late] obtain rest where
    front: "polled batch = mid @ ?q # rest" and
    behind: "after = rest @ ([SDL_PollEvent None] @ render renderer)"
    by (elim exE conjE)
  from polled_suffix [OF front] obtain others where "rest = polled others" ..
  with behind have "after = polled others @ [SDL_PollEvent None] @ render renderer"
    by simp
  then show ?thesis ..
qed

lemma main_polled:
  assumes "main e = (calls, Some code)" and "SDL_PollEvent p \<in> set calls"
  shows "\<exists>lead. calls = lead @ fst (main_loop (created_renderer e) True (poll_results e))
        @ [SDL_Quit, SDL_DestroyRenderer (created_renderer e),
           SDL_DestroyWindow (created_window e)] \<and>
      (\<forall>p. SDL_PollEvent p \<notin> set lead) \<and>
      snd (main_loop (created_renderer e) True (poll_results e)) \<and>
      code = EXIT_SUCCESS"
proof -
  let ?lead = "[SDL_Init SDL_INIT_VIDEO,
      SDL_CreateWindow ''Software Rasterizer'' SDL_WINDOWPOS_CENTERED
        SDL_WINDOWPOS_CENTERED SCREEN_WIDTH SCREEN_HEIGHT SDL_WINDOW_SHOWN,
      SDL_CreateRenderer (created_window e) (- 1) SDL_RENDERER_ACCELERATED]"
  from assms have
    "calls = ?lead @ fst (main_loop (created_renderer e) True (poll_results e))
        @ [SDL_Quit, SDL_DestroyRenderer (created_renderer e),
           SDL_DestroyWindow (created_window e)] \<and>
      (\<forall>p. SDL_PollEvent p \<notin> set ?lead) \<and>
      snd (main_loop (created_renderer e) True (poll_results e)) \<and>
      code = EXIT_SUCCESS"
    by (auto simp: main_def Let_def unique_ptr_destroy_def SdlWindowDeleter_def
        SdlRendererDeleter_def split: if_splits prod.splits)
  then show ?thesis by blast
qed

lemma main_after_quit:
  assumes ret: "main e = (calls, Some code)"
    and split: "calls = before @ SDL_PollEvent (Some event) # after"
    and quit: "type event = SDL_QUIT"
  shows "code = EXIT_SUCCESS \<and>
    (\<exists>others. after = polled others @
       [SDL_PollEvent None,
        SDL_SetRenderDrawColor (created_renderer e) 20 20 30 255,
        SDL_RenderClear (created_renderer e),
        SDL_RenderPresent (created_renderer e),
        SDL_Quit,
        SDL_DestroyRenderer (created_renderer e),
        SDL_DestroyWindow (created_window e)])"
proof -
  let ?q = "SDL_PollEvent (Some event)"
  let ?loop = "main_loop (created_renderer e) True (poll_results e)"
  let ?down = "[SDL_Quit, SDL_DestroyRenderer (created_renderer e),
    SDL_DestroyWindow (created_window e)]"
  from split have "?q \<in> set calls" by simp
  from main_polled [OF ret this] obtain lead where
    calls: "calls = lead @ fst ?loop @ ?down" and
    lead: "\<forall>p. SDL_PollEvent p \<notin> set lead" and
    left: "snd ?loop" and
    code: "code = EXIT_SUCCESS"
    by (elim exE conjE)
  from lead have early: "?q \<notin> set lead" by simp
  from calls split have "lead @ (fst ?loop @ ?down) = before @ ?q # after"
    by (rule trans [OF sym])
  from split_behind [OF this early] obtain mid where
    inner: "fst ?loop @ ?down = mid @ ?q # after"
    by (elim exE conjE)
  have late: "?q \<notin> set ?down" by simp
  from split_in_front [OF inner late] obtain rest where
    loop: "fst ?loop = mid @ ?q # rest" and
    after: "after = rest @ ?down"
    by (elim exE conjE)
  from main_loop_after_quit [OF left loop quit] obtain others where
    "rest = polled others @ [SDL_PollEvent None] @ render (created_renderer e)" ..
  with after have "after = polled others @
       [SDL_PollEvent None,
        SDL_SetRenderDrawColor (created_renderer e) 20 20 30 255,
        SDL_RenderClear (created_renderer e),
        SDL_RenderPresent (created_renderer e),
        SDL_Quit,
        SDL_DestroyRenderer (created_renderer e),
        SDL_DestroyWindow (created_window e)]"
    by (simp add: render_def)
  then have "\<exists>others. after = polled others @
       [SDL_PollEvent None,
        SDL_SetRenderDrawColor (created_renderer e) 20 20 30 255,
        SDL_RenderClear (created_renderer e),
        SDL_RenderPresent (created_renderer e),
        SDL_Quit,
        SDL_DestroyRenderer (created_renderer e),
        SDL_DestroyWindow (created_window e)]" ..
  with code show ?thesis by (rule conjI)
qed

lemma main_quit_returns:
  assumes init: "0 \<le> init_status e"
    and window: "created_window e \<noteq> NULL"
    and renderer: "created_renderer e \<noteq> NULL"
    and polls: "poll_results e =
      script_of batches @ map Some early @ Some event # map Some later @ None # unread"
    and none: "\<forall>b\<in>set batches. \<not> list_ex is_quit b"
    and quit: "type event = SDL_QUIT"
  shows "snd (main e) = Some EXIT_SUCCESS \<and>
    (\<exists>lead. fst (main e) = lead @ SDL_PollEvent (Some event) # polled later @
       [SDL_PollEvent None,
        SDL_SetRenderDrawColor (created_renderer e) 20 20 30 255,
        SDL_RenderClear (created_renderer e),
        SDL_RenderPresent (created_renderer e),
        SDL_Quit,
        SDL_DestroyRenderer (created_renderer e),
        SDL_DestroyWindow (created_window e)])"
proof -
  let ?r = "created_renderer e"
  let ?batch = "early @ event # later"
  have "poll_results e = script_of batches @ (map Some ?batch @ None # unread)"
    by (simp add: polls)
  moreover have "list_ex is_quit ?batch"
    using quit by (simp add: is_quit_def)
  ultimately have loop: "main_loop ?r True (poll_results e) =
      (concat (map (iteration ?r) batches) @ iteration ?r ?batch, True)"
    using none by (simp only: main_loop_batches main_loop_quit fst_conv snd_conv)
  let ?lead = "[SDL_Init SDL_INIT_VIDEO,
      SDL_CreateWindow ''Software Rasterizer'' SDL_WINDOWPOS_CENTERED
        SDL_WINDOWPOS_CENTERED SCREEN_WIDTH SCREEN_HEIGHT SDL_WINDOW_SHOWN,
      SDL_CreateRenderer (created_window e) (- 1) SDL_RENDERER_ACCELERATED]
      @ concat (map (iteration ?r) batches) @ polled early"
  have "snd (main e) = Some EXIT_SUCCESS \<and>
    fst (main e) = ?lead @ SDL_PollEvent (Some event) # polled later @
       [SDL_PollEvent None,
        SDL_SetRenderDrawColor ?r 20 20 30 255,
        SDL_RenderClear ?r,
        SDL_RenderPresent ?r,
        SDL_Quit,
        SDL_DestroyRenderer ?r,
        SDL_DestroyWindow (created_window e)]"
    using init window renderer
    by (simp add: main_def Let_def loop unique_ptr_destroy_def SdlWindowDeleter_def
        SdlRendererDeleter_def iteration_def render_def polled_def)
  then show ?thesis by blast
qed

text \<open>
  C10. Once an \<open>SDL_QUIT\<close> event is polled the program still finishes the current frame: it
  clears and presents exactly once more, then leaves the loop and returns
  \<open>EXIT_SUCCESS\<close>.

  First part: in any run in which \<open>main\<close> returned, what follows a polled \<open>SDL_QUIT\<close>
  event is the remaining polls of that iteration that returned an event, the poll that
  returned 0, one set-colour, clear and present, and then the teardown; the exit code is
  \<open>EXIT_SUCCESS\<close>. Second part: when the start-up succeeds and the poll results hold an
  \<open>SDL_QUIT\<close> event, with no such event in the iterations before its own, and a later poll
  returning 0 with only events in between, then \<open>main\<close> does return, with
  \<open>EXIT_SUCCESS\<close> and these same calls after the event.
\<close>

theorem main_quit_finishes_frame:
  "(main e = (calls, Some code) \<and>
    calls = before @ SDL_PollEvent (Some event) # after \<and>
    type event = SDL_QUIT \<longrightarrow>
      code = EXIT_SUCCESS \<and>
      (\<exists>others. after = polled others @
         [SDL_PollEvent None,
          SDL_SetRenderDrawColor (created_renderer e) 20 20 30 255,
          SDL_RenderClear (created_renderer e),
          SDL_RenderPresent (created_renderer e),
          SDL_Quit,
          SDL_DestroyRenderer (created_renderer e),
          SDL_DestroyWindow (created_window e)]))
   \<and>
   (0 \<le> init_status e \<and> created_window e \<noteq> NULL \<and> created_renderer e \<noteq> NULL \<and>
    poll_results e =
      script_of batches @ map Some early @ Some event # map Some later @ None # unread \<and>
    (\<forall>b\<in>set batches. \<not> list_ex is_quit b) \<and>
    type event = SDL_QUIT \<longrightarrow>
      snd (main e) = Some EXIT_SUCCESS \<and>
      (\<exists>lead. fst (main e) = lead @ SDL_PollEvent (Some event) # polled later @
         [SDL_PollEvent None,
          SDL_SetRenderDrawColor (created_renderer e) 20 20 30 255,
          SDL_RenderClear (created_renderer e),
          SDL_RenderPresent (created_renderer e),
          SDL_Quit,
          SDL_DestroyRenderer (created_renderer e),
          SDL_DestroyWindow (created_window e)]))"
proof (rule conjI; rule impI; elim conjE)
  assume "main e = (calls, Some code)"
    and "calls = before @ SDL_PollEvent (Some event) # after"
    and "type event = SDL_QUIT"
  then show "code = EXIT_SUCCESS \<and>
      (\<exists>others. after = polled others @
         [SDL_PollEvent None,
          SDL_SetRenderDrawColor (created_renderer e) 20 20 30 255,
          SDL_RenderClear (created_renderer e),
          SDL_RenderPresent (created_renderer e),
          SDL_Quit,
          SDL_DestroyRenderer (created_renderer e),
          SDL_DestroyWindow (created_window e)])"
    by (rule main_after_quit)
next
  assume "0 \<le> init_status e"
    and "created_window e \<noteq> NULL"
    and "created_renderer e \<noteq> NULL"
    and "poll_results e =
      script_of batches @ map Some early @ Some event # map Some later @ None # unread"
    and "\<forall>b\<in>set batches. \<not> list_ex is_quit b"
    and "type event = SDL_QUIT"
  then show "snd (main e) = Some EXIT_SUCCESS \<and>
      (\<exists>lead. fst (main e) = lead @ SDL_PollEvent (Some event) # polled later @
         [SDL_PollEvent None,
          SDL_SetRenderDrawColor (created_renderer e) 20 20 30 255,
          SDL_RenderClear (created_renderer e),
          SDL_RenderPresent (created_renderer e),
          SDL_Quit,
          SDL_DestroyRenderer (created_renderer e),
          SDL_DestroyWindow (created_window e)])"
    by (rule main_quit_returns)
qed

theorem main_quit_finishes_frame_witness:
  "main demo_env =
     (take 13 (fst (main demo_env)) @ SDL_PollEvent (Some quit_event)
        # drop 14 (fst (main demo_env)), Some EXIT_SUCCESS) \<and>
   drop 14 (fst (main demo_env)) =
     [SDL_PollEvent (Some key_event),
      SDL_PollEvent None,
      SDL_SetRenderDrawColor 7 20 20 30 255,
      SDL_RenderClear 7,
      SDL_RenderPresent 7,
      SDL_Quit,
      SDL_DestroyRenderer 7,
      SDL_DestroyWindow 11] \<and>
   (\<exists>others. drop 14 (fst (main demo_env)) = polled others @
      [SDL_PollEvent None,
       SDL_SetRenderDrawColor 7 20 20 30 255,
       SDL_RenderClear 7,
       SDL_RenderPresent 7,
       SDL_Quit,
       SDL_DestroyRenderer 7,
       SDL_DestroyWindow 11]) \<and>
   (\<exists>lead. fst (main demo_env) = lead @ SDL_PollEvent (Some quit_event) # polled [key_event] @
      [SDL_PollEvent None,
       SDL_SetRenderDrawColor 7 20 20 30 255,
       SDL_RenderClear 7,
       SDL_RenderPresent 7,
       SDL_Quit,
       SDL_DestroyRenderer 7,
       SDL_DestroyWindow 11])"
proof -
  have ret: "main demo_env =
     (take 13 (fst (main demo_env)) @ SDL_PollEvent (Some quit_event)
        # drop 14 (fst (main demo_env)), Some EXIT_SUCCESS)"
    by code_simp
  have shown: "drop 14 (fst (main demo_env)) =
     [SDL_PollEvent (Some key_event),
      SDL_PollEvent None,
      SDL_SetRenderDrawColor 7 20 20 30 255,
      SDL_RenderClear 7,
      SDL_RenderPresent 7,
      SDL_Quit,
      SDL_DestroyRenderer 7,
      SDL_DestroyWindow 11]"
    by code_simp
  have quit: "type quit_event = SDL_QUIT"
    by (simp add: quit_event_def)
  have env: "0 \<le> init_status demo_env" "created_window demo_env = 11"
    "created_renderer demo_env = 7" "(11::nat) \<noteq> NULL" "(7::nat) \<noteq> NULL"
    by (simp_all add: demo_env_def NULL_def)
  have polls: "poll_results demo_env =
      script_of [[key_event], []] @ map Some [key_event] @ Some quit_event
        # map Some [key_event] @ None # [Some key_event, None]"
    by (simp add: demo_env_def script_of_def)
  have none: "\<forall>b\<in>set [[key_event], []]. \<not> list_ex is_quit b"
    by (simp add: is_quit_def key_event_def SDL_QUIT_def)
  note claim = main_quit_finishes_frame
    [where e = demo_env and calls = "take 13 (fst (main demo_env)) @
          SDL_PollEvent (Some quit_event) # drop 14 (fst (main demo_env))"
      and code = EXIT_SUCCESS and before = "take 13 (fst (main demo_env))"
      and event = quit_event and after = "drop 14 (fst (main demo_env))"
      and batches = "[[key_event], []]" and early = "[key_event]" and later = "[key_event]"
      and unread = "[Some key_event, None]"]
  from claim ret quit
  have first: "\<exists>others. drop 14 (fst (main demo_env)) = polled others @
      [SDL_PollEvent None,
       SDL_SetRenderDrawColor (created_renderer demo_env) 20 20 30 255,
       SDL_RenderClear (created_renderer demo_env),
       SDL_RenderPresent (created_renderer demo_env),
       SDL_Quit,
       SDL_DestroyRenderer (created_renderer demo_env),
       SDL_DestroyWindow (created_window demo_env)]"
    by blast
  from claim env polls none quit
  have second: "\<exists>lead. fst (main demo_env) =
      lead @ SDL_PollEvent (Some quit_event) # polled [key_event] @
      [SDL_PollEvent None,
       SDL_SetRenderDrawColor (created_renderer demo_env) 20 20 30 255,
       SDL_RenderClear (created_renderer demo_env),
       SDL_RenderPresent (created_renderer demo_env),
       SDL_Quit,
       SDL_DestroyRenderer (created_renderer demo_env),
       SDL_DestroyWindow (created_window demo_env)]"
    by simp
  from ret shown first second show ?thesis
    unfolding env(2,3) by (intro conjI)
qed

end
